theory Spec2Isabelle
  imports Complex_Main "HOL-Library.AList" "HOL-Library.Sublist" "HOL-Library.Multiset"
begin

section \<open>Python values and dictionaries\<close>

text \<open>
  A task of \<^verbatim>\<open>src/main.py\<close> is a Python \<^verbatim>\<open>dict\<close> with string keys. The values the
  program stores in it are \<^verbatim>\<open>None\<close>, booleans, integers, strings and \<^verbatim>\<open>datetime\<close>
  objects. A datetime is naive (\<open>VTime\<close>, as \<^verbatim>\<open>datetime.now()\<close> returns it) or carries
  a UTC offset (\<open>VAware\<close>, as \<^verbatim>\<open>fromisoformat\<close> returns it for a string with an
  offset); either is modelled by its position on its time line.
  A dictionary is an association list with distinct keys in insertion order; assignment
  \<^verbatim>\<open>d[k] = v\<close> replaces the value in place or appends a new key, as Python does.
\<close>

datatype val = VNone | VBool bool | VInt int | VStr string | VTime int | VAware int

text \<open>What the library's parser returns, and the value it stands for.\<close>

datatype datetime = Naive int | Aware int

fun of_datetime :: "datetime \<Rightarrow> val" where
  "of_datetime (Naive t) = VTime t"
| "of_datetime (Aware t) = VAware t"

type_synonym dict = "(string \<times> val) list"

text \<open>Exceptions carry the text that \<^verbatim>\<open>str(e)\<close> returns.\<close>

datatype error =
    Exception string
  | ValueError string
  | TypeError string
  | AttributeError string
  | KeyError string
  | ZeroDivisionError string

fun str_error :: "error \<Rightarrow> string" where
  "str_error (Exception m) = m"
| "str_error (ValueError m) = m"
| "str_error (TypeError m) = m"
| "str_error (AttributeError m) = m"
| "str_error (KeyError m) = m"
| "str_error (ZeroDivisionError m) = m"

fun truthy :: "val \<Rightarrow> bool" where
  "truthy VNone = False"
| "truthy (VBool b) = b"
| "truthy (VInt i) = (i \<noteq> 0)"
| "truthy (VStr s) = (s \<noteq> [])"
| "truthy (VTime t) = True"
| "truthy (VAware t) = True"

fun type_name :: "val \<Rightarrow> string" where
  "type_name VNone = ''NoneType''"
| "type_name (VBool b) = ''bool''"
| "type_name (VInt i) = ''int''"
| "type_name (VStr s) = ''str''"
| "type_name (VTime t) = ''datetime.datetime''"
| "type_name (VAware t) = ''datetime.datetime''"

text \<open>Python's \<^verbatim>\<open>==\<close>: a boolean is the integer 0 or 1; otherwise values of different
  types are unequal, and so are a naive and an aware datetime.\<close>

fun py_eq :: "val \<Rightarrow> val \<Rightarrow> bool" where
  "py_eq (VInt i) (VBool b) = (i = (if b then 1 else 0))"
| "py_eq (VBool b) (VInt i) = (i = (if b then 1 else 0))"
| "py_eq a b = (a = b)"

text \<open>Text in single quotes, as Python's messages write names.\<close>

definition quoted :: "string \<Rightarrow> string" where
  "quoted s = CHR 0x27 # s @ [CHR 0x27]"

text \<open>\<^verbatim>\<open>d[k]\<close> raises \<^verbatim>\<open>KeyError\<close> on a missing key; \<^verbatim>\<open>d.get(k, default)\<close> does not.\<close>

definition getitem :: "dict \<Rightarrow> string \<Rightarrow> error + val" where
  "getitem d k = (case map_of d k of None \<Rightarrow> Inl (KeyError (quoted k)) | Some v \<Rightarrow> Inr v)"

definition dict_get :: "dict \<Rightarrow> string \<Rightarrow> val \<Rightarrow> val" where
  "dict_get d k dflt = (case map_of d k of None \<Rightarrow> dflt | Some v \<Rightarrow> v)"

definition setitem :: "string \<Rightarrow> val \<Rightarrow> dict \<Rightarrow> dict" where
  "setitem k v d = AList.update k v d"

text \<open>\<^verbatim>\<open>x.__len__()\<close> exists on strings only, among the values modelled.\<close>

definition dunder_len :: "val \<Rightarrow> error + nat" where
  "dunder_len v = (case v of VStr s \<Rightarrow> Inr (length s)
     | _ \<Rightarrow> Inl (AttributeError (quoted (type_name v) @ '' object has no attribute '' @ quoted ''__len__'')))"

text \<open>
  \<^verbatim>\<open>x < now\<close> where \<^verbatim>\<open>now\<close> is the naive datetime that \<^verbatim>\<open>datetime.now()\<close> returned:
  only a naive datetime compares with it. An aware one raises, and so does any other
  value.
\<close>

definition lt_datetime :: "val \<Rightarrow> int \<Rightarrow> error + bool" where
  "lt_datetime v now = (case v of VTime t \<Rightarrow> Inr (t < now)
     | VAware t \<Rightarrow>
         Inl (TypeError (''can'' @ [CHR 0x27] @ ''t compare offset-naive and offset-aware datetimes''))
     | _ \<Rightarrow> Inl (TypeError (quoted ''<'' @ '' not supported between instances of '' @ quoted (type_name v)
           @ '' and '' @ quoted ''datetime.datetime'')))"

text \<open>\<^verbatim>\<open>x.lower()\<close> on ASCII text; other values have no such method.\<close>

definition lower_char :: "char \<Rightarrow> char" where
  "lower_char c =
     (case map_of (zip ''ABCDEFGHIJKLMNOPQRSTUVWXYZ'' ''abcdefghijklmnopqrstuvwxyz'') c of
        Some l \<Rightarrow> l
      | None \<Rightarrow> c)"

definition lower :: "val \<Rightarrow> error + string" where
  "lower v = (case v of VStr s \<Rightarrow> Inr (map lower_char s)
     | _ \<Rightarrow> Inl (AttributeError (quoted (type_name v) @ '' object has no attribute '' @ quoted ''lower'')))"

section \<open>The manager\<close>

text \<open>
  The four attributes of \<^verbatim>\<open>TaskManager\<close>, and three components of the world around it:
  \<^item> \<open>reads\<close>: how often \<^verbatim>\<open>datetime.datetime.now()\<close> has been called. The clock is a
    parameter \<open>clock\<close> of the operations; the \<open>n\<close>-th call returns \<open>clock n\<close>.
  \<^item> \<open>calls\<close>: the invocations \<^verbatim>\<open>observer(event, data)\<close> made so far, in order. An
    observer is an opaque callable, named by a number; what it raises is caught and
    printed by \<^verbatim>\<open>notifyObservers\<close> and never reaches the manager.
  \<^item> \<open>scheduled\<close>: the callbacks handed to the event loop by \<^verbatim>\<open>call_soon\<close> and not yet run.
\<close>

type_synonym observer = nat

record TaskManager =
  tasks :: "dict list"
  completedTasks :: "dict list"
  observers :: "observer list"
  idCounter :: int
  reads :: nat
  calls :: "(observer \<times> string \<times> dict) list"
  scheduled :: "(nat \<times> val) list"

text \<open>\<^verbatim>\<open>TaskManager()\<close>, in a world where nothing has happened yet.\<close>

definition init :: TaskManager where
  "init = \<lparr>tasks = [], completedTasks = [], observers = [], idCounter = 0,
           reads = 0, calls = [], scheduled = []\<rparr>"

subsection \<open>Observers\<close>

definition addObserver :: "observer \<Rightarrow> TaskManager \<Rightarrow> TaskManager" where
  "addObserver callback s = s\<lparr>observers := observers s @ [callback]\<rparr>"

definition removeObserver :: "observer \<Rightarrow> TaskManager \<Rightarrow> TaskManager" where
  "removeObserver callback s =
     (if callback \<in> set (observers s) then s\<lparr>observers := remove1 callback (observers s)\<rparr> else s)"

definition notifyObservers :: "string \<Rightarrow> dict \<Rightarrow> TaskManager \<Rightarrow> TaskManager" where
  "notifyObservers event data s =
     s\<lparr>calls := foldl (\<lambda>log observer. log @ [(observer, event, data)]) (calls s) (observers s)\<rparr>"

subsection \<open>Creation and validation\<close>

text \<open>
  \<^verbatim>\<open>validateTask\<close> sleeps and then checks the title. The second disjunct of its condition
  is evaluated only for a truthy title and calls \<^verbatim>\<open>__len__\<close> on it; the comparison
  \<^verbatim>\<open>(n == 0) == 0\<close> of a boolean with 0 holds when the boolean is false.
\<close>

definition validateTask :: "dict \<Rightarrow> error + bool" where
  "validateTask task =
     (case getitem task ''title'' of
        Inl e \<Rightarrow> Inl e
      | Inr title \<Rightarrow>
          if \<not> truthy title then Inl (Exception ''False'')
          else (case dunder_len title of
                  Inl e \<Rightarrow> Inl e
                | Inr n \<Rightarrow>
                    if n = 0 \<and> py_eq (VBool (n = 0)) (VInt 0) then Inl (Exception ''False'')
                    else Inr True))"

text \<open>
  \<^verbatim>\<open>datetime.datetime.fromisoformat(dueDate) if dueDate else None\<close>. The library's parser
  is the parameter \<open>fromisoformat\<close>: it returns the datetime, naive or aware as the
  string says, or the message of the \<^verbatim>\<open>ValueError\<close> it raises. An argument that is not a string is a \<^verbatim>\<open>TypeError\<close>.
\<close>

definition parse_dueDate :: "(string \<Rightarrow> string + datetime) \<Rightarrow> val \<Rightarrow> error + val" where
  "parse_dueDate fromisoformat dueDate =
     (if truthy dueDate then
        (case dueDate of
           VStr d \<Rightarrow> (case fromisoformat d of Inl m \<Rightarrow> Inl (ValueError m) | Inr t \<Rightarrow> Inr (of_datetime t))
         | _ \<Rightarrow> Inl (TypeError ''fromisoformat: argument must be str''))
      else Inr VNone)"

text \<open>
  \<^verbatim>\<open>addTask(title, priority='medium', dueDate=None)\<close>. An argument the caller leaves out is
  \<open>None\<close> here and takes the default of the signature. The coroutine is modelled as one
  step: nothing else touches the manager while \<^verbatim>\<open>validateTask\<close> sleeps.
\<close>

definition addTask ::
  "(string \<Rightarrow> string + datetime) \<Rightarrow> (nat \<Rightarrow> int) \<Rightarrow> val \<Rightarrow> val option \<Rightarrow> val option \<Rightarrow> TaskManager
     \<Rightarrow> (error + dict) \<times> TaskManager" where
  "addTask fromisoformat clock title priority_arg dueDate_arg s =
     (let priority = (case priority_arg of None \<Rightarrow> VStr ''medium'' | Some p \<Rightarrow> p);
          dueDate = (case dueDate_arg of None \<Rightarrow> VNone | Some d \<Rightarrow> d)
      in case parse_dueDate fromisoformat dueDate of
           Inl e \<Rightarrow> (Inl e, s)
         | Inr due \<Rightarrow>
             (let task = [(''id'', VInt (idCounter s + 1)), (''title'', title),
                          (''priority'', priority), (''dueDate'', due),
                          (''completed'', VBool False), (''createdAt'', VTime (clock (reads s)))];
                  s1 = s\<lparr>reads := Suc (reads s), idCounter := idCounter s + 1\<rparr>
              in case validateTask task of
                   Inl e \<Rightarrow> (Inl e, s1)
                 | Inr isValid \<Rightarrow>
                     if isValid then
                       (Inr task, notifyObservers ''taskAdded'' task (s1\<lparr>tasks := tasks s1 @ [task]\<rparr>))
                     else (Inl (Exception ''Invalid task''), s1)))"

text \<open>
  \<^verbatim>\<open>bulkAddTasks\<close>: the list comprehension evaluates the three \<^verbatim>\<open>d.get(...)\<close> of every
  item and creates the coroutines, none of which has started; the loop then awaits
  them one after the other, turning an exception into \<^verbatim>\<open>{'error': str(e)}\<close>.
\<close>

definition promise_args :: "dict \<Rightarrow> val \<times> val \<times> val" where
  "promise_args d = (dict_get d ''title'' VNone, dict_get d ''priority'' VNone, dict_get d ''dueDate'' VNone)"

fun await_all ::
  "(string \<Rightarrow> string + datetime) \<Rightarrow> (nat \<Rightarrow> int) \<Rightarrow> (val \<times> val \<times> val) list \<Rightarrow> TaskManager
     \<Rightarrow> dict list \<times> TaskManager" where
  "await_all fromisoformat clock [] s = ([], s)"
| "await_all fromisoformat clock ((title, priority, dueDate) # ps) s =
     (case addTask fromisoformat clock title (Some priority) (Some dueDate) s of
        (r, s1) \<Rightarrow>
          (case await_all fromisoformat clock ps s1 of
             (results, s2) \<Rightarrow>
               ((case r of Inr task \<Rightarrow> task | Inl e \<Rightarrow> [(''error'', VStr (str_error e))]) # results, s2)))"

definition bulkAddTasks ::
  "(string \<Rightarrow> string + datetime) \<Rightarrow> (nat \<Rightarrow> int) \<Rightarrow> dict list \<Rightarrow> TaskManager \<Rightarrow> dict list \<times> TaskManager" where
  "bulkAddTasks fromisoformat clock taskData s =
     await_all fromisoformat clock (map promise_args taskData) s"

subsection \<open>Completion and update\<close>

text \<open>
  The generator \<^verbatim>\<open>(i for i, t in enumerate(self.tasks) if t['id'] == taskId)\<close> under
  \<^verbatim>\<open>next(..., -1)\<close>: the index of the first task with that id, \<open>None\<close> for the
  default \<^verbatim>\<open>-1\<close>, a \<^verbatim>\<open>KeyError\<close> from a task without the key met on the way.
\<close>

fun index_of_id :: "dict list \<Rightarrow> val \<Rightarrow> error + nat option" where
  "index_of_id [] taskId = Inr None"
| "index_of_id (t # ts) taskId =
     (case getitem t ''id'' of
        Inl e \<Rightarrow> Inl e
      | Inr v \<Rightarrow>
          if py_eq v taskId then Inr (Some 0)
          else (case index_of_id ts taskId of
                  Inl e \<Rightarrow> Inl e
                | Inr None \<Rightarrow> Inr None
                | Inr (Some i) \<Rightarrow> Inr (Some (Suc i))))"

definition completeTask ::
  "(nat \<Rightarrow> int) \<Rightarrow> val \<Rightarrow> TaskManager \<Rightarrow> (error + dict option) \<times> TaskManager" where
  "completeTask clock taskId s =
     (case index_of_id (tasks s) taskId of
        Inl e \<Rightarrow> (Inl e, s)
      | Inr None \<Rightarrow> (Inr None, s)
      | Inr (Some taskIndex) \<Rightarrow>
          (let task = setitem ''completedAt'' (VTime (clock (reads s)))
                        (setitem ''completed'' (VBool True) (tasks s ! taskIndex));
               s1 = s\<lparr>reads := Suc (reads s),
                       completedTasks := completedTasks s @ [task],
                       tasks := take taskIndex (tasks s) @ drop (Suc taskIndex) (tasks s)\<rparr>
           in (Inr (Some task), notifyObservers ''taskCompleted'' task s1)))"

text \<open>
  \<^verbatim>\<open>updateTask\<close> assigns every key of \<^verbatim>\<open>updates\<close> to the task it found, in the order of
  the dictionary, and mutates the task where it stands in the open list. It returns
  nothing; the error is a \<^verbatim>\<open>KeyError\<close> of the lookup.
\<close>

definition apply_updates :: "dict \<Rightarrow> dict \<Rightarrow> dict" where
  "apply_updates updates task = foldl (\<lambda>t key. setitem key (dict_get updates key VNone) t) task (map fst updates)"

definition updateTask :: "val \<Rightarrow> dict \<Rightarrow> TaskManager \<Rightarrow> error option \<times> TaskManager" where
  "updateTask taskId updates s =
     (case index_of_id (tasks s) taskId of
        Inl e \<Rightarrow> (Some e, s)
      | Inr None \<Rightarrow> (None, s)
      | Inr (Some i) \<Rightarrow>
          if tasks s ! i \<noteq> [] then
            (let task = apply_updates updates (tasks s ! i)
             in (None, notifyObservers ''taskUpdated'' task (s\<lparr>tasks := (tasks s)[i := task]\<rparr>)))
          else (None, s))"

subsection \<open>Queries\<close>

text \<open>
  \<^verbatim>\<open>getTasksByPriority\<close> hands one callback per open task to the event loop and returns
  \<^verbatim>\<open>results\<close> as it is then: no callback has run. Each callback reads the loop variable
  \<^verbatim>\<open>i\<close> when it runs, which is the last index by then, and the wanted priority; it is
  recorded as that pair.
\<close>

definition getTasksByPriority :: "val \<Rightarrow> TaskManager \<Rightarrow> dict list \<times> TaskManager" where
  "getTasksByPriority priority s =
     (let results = [];
          n = length (tasks s)
      in (results, s\<lparr>scheduled := foldl (\<lambda>q i. q @ [(n - 1, priority)]) (scheduled s) [0..<n]\<rparr>))"

text \<open>
  The condition of \<^verbatim>\<open>getOverdueTasks\<close>,
  \<^verbatim>\<open>t['dueDate'] and t['dueDate'] < now and not t['completed']\<close>, left to right with
  Python's short circuit.
\<close>

definition is_overdue :: "int \<Rightarrow> dict \<Rightarrow> error + bool" where
  "is_overdue now t =
     (case getitem t ''dueDate'' of
        Inl e \<Rightarrow> Inl e
      | Inr d \<Rightarrow>
          if \<not> truthy d then Inr False
          else (case lt_datetime d now of
                  Inl e \<Rightarrow> Inl e
                | Inr earlier \<Rightarrow>
                    if \<not> earlier then Inr False
                    else (case getitem t ''completed'' of
                            Inl e \<Rightarrow> Inl e
                          | Inr c \<Rightarrow> Inr (\<not> truthy c))))"

fun overdue_filter :: "int \<Rightarrow> dict list \<Rightarrow> error + dict list" where
  "overdue_filter now [] = Inr []"
| "overdue_filter now (t # ts) =
     (case is_overdue now t of
        Inl e \<Rightarrow> Inl e
      | Inr keep \<Rightarrow>
          (case overdue_filter now ts of
             Inl e \<Rightarrow> Inl e
           | Inr r \<Rightarrow> Inr (if keep then t # r else r)))"

text \<open>
  The sort key \<^verbatim>\<open>x['dueDate']\<close>. Every task that passed the filter holds a naive
  datetime there, whose position on the time line is the key; \<^verbatim>\<open>sorted\<close> is stable, as
  \<open>sort_key\<close> is.
\<close>

definition due_key :: "dict \<Rightarrow> int" where
  "due_key t = (case map_of t ''dueDate'' of Some (VTime d) \<Rightarrow> d | _ \<Rightarrow> 0)"

definition getOverdueTasks :: "(nat \<Rightarrow> int) \<Rightarrow> TaskManager \<Rightarrow> (error + dict list) \<times> TaskManager" where
  "getOverdueTasks clock s =
     (let now = clock (reads s);
          s1 = s\<lparr>reads := Suc (reads s)\<rparr>
      in case overdue_filter now (tasks s) of
           Inl e \<Rightarrow> (Inl e, s1)
         | Inr r \<Rightarrow> (Inr (sort_key due_key r), s1))"

text \<open>
  \<^verbatim>\<open>getTaskStats\<close>. Python divides two integers into a float; the model keeps the
  quotient exact, as a rational. Division by zero raises.
\<close>

record stats =
  total :: nat
  completed :: nat
  pending :: nat
  overdue :: nat
  completionRate :: rat

definition calculateCompletionRate :: "TaskManager \<Rightarrow> error + rat" where
  "calculateCompletionRate s =
     (if length (tasks s) + length (completedTasks s) = 0 then Inl (ZeroDivisionError ''division by zero'')
      else Inr (of_nat (length (completedTasks s)) / of_nat (length (tasks s) + length (completedTasks s)) * 100))"

definition getTaskStats :: "(nat \<Rightarrow> int) \<Rightarrow> TaskManager \<Rightarrow> (error + stats) \<times> TaskManager" where
  "getTaskStats clock s =
     (case getOverdueTasks clock s of
        (Inl e, s1) \<Rightarrow> (Inl e, s1)
      | (Inr od, s1) \<Rightarrow>
          (case calculateCompletionRate s1 of
             Inl e \<Rightarrow> (Inl e, s1)
           | Inr rate \<Rightarrow>
               (Inr \<lparr>total = length (tasks s1) + length (completedTasks s1),
                     completed = length (completedTasks s1),
                     pending = length (tasks s1),
                     overdue = length od,
                     completionRate = rate\<rparr>, s1)))"

text \<open>
  \<^verbatim>\<open>searchTasks\<close>: \<^verbatim>\<open>a in b\<close> on strings is the test for a contiguous substring; the
  description is looked at only when the title does not match.
\<close>

definition matches :: "string \<Rightarrow> dict \<Rightarrow> error + bool" where
  "matches query t =
     (case getitem t ''title'' of
        Inl e \<Rightarrow> Inl e
      | Inr title \<Rightarrow>
          (case lower title of
             Inl e \<Rightarrow> Inl e
           | Inr lt \<Rightarrow>
               if sublist (map lower_char query) lt then Inr True
               else (case lower (dict_get t ''description'' (VStr [])) of
                       Inl e \<Rightarrow> Inl e
                     | Inr ld \<Rightarrow> Inr (sublist (map lower_char query) ld))))"

fun search_filter :: "string \<Rightarrow> dict list \<Rightarrow> error + dict list" where
  "search_filter query [] = Inr []"
| "search_filter query (t # ts) =
     (case matches query t of
        Inl e \<Rightarrow> Inl e
      | Inr keep \<Rightarrow>
          (case search_filter query ts of
             Inl e \<Rightarrow> Inl e
           | Inr r \<Rightarrow> Inr (if keep then t # r else r)))"

definition searchTasks :: "string \<Rightarrow> TaskManager \<Rightarrow> error + dict list" where
  "searchTasks query s = search_filter query (tasks s)"

section \<open>A concrete environment\<close>

text \<open>
  An instance of the two parameters, for running the model: a parser that knows the two
  dates of \<^verbatim>\<open>demonstrateUsage\<close> (as seconds since 1970) and the first of them written
  with time and UTC offset, and rejects every other string with the library's message, and a clock that advances by one at every reading.
\<close>

definition demo_fromisoformat :: "string \<Rightarrow> string + datetime" where
  "demo_fromisoformat d =
     (if d = ''2024-01-15'' then Inr (Naive 1705276800)
      else if d = ''2024-01-20'' then Inr (Naive 1705708800)
      else if d = ''2024-01-15T00:00:00+00:00'' then Inr (Aware 1705276800)
      else Inl (''Invalid isoformat string: '' @ quoted d))"

definition demo_clock :: "nat \<Rightarrow> int" where
  "demo_clock n = 1800000000 + int n"

text \<open>Three tasks added to a new manager: two with a due date, in reverse order, one without.\<close>

definition demo_manager :: TaskManager where
  "demo_manager =
     snd (addTask demo_fromisoformat demo_clock (VStr ''Plan'') None None
       (snd (addTask demo_fromisoformat demo_clock (VStr ''Complete project'') (Some (VStr ''high''))
               (Some (VStr ''2024-01-15''))
          (snd (addTask demo_fromisoformat demo_clock (VStr ''Review code'') (Some (VStr ''medium''))
                  (Some (VStr ''2024-01-20'')) init)))))"

section \<open>The data model of the specification\<close>

text \<open>
  The spec types two fields that \<^verbatim>\<open>getOverdueTasks\<close> reads: \<^verbatim>\<open>dueDate\<close> is an optional
  point in time and \<^verbatim>\<open>completed\<close> is a boolean. The point in time is a naive datetime
  here, the kind that compares with \<^verbatim>\<open>datetime.now()\<close>.
\<close>

definition well_typed :: "dict \<Rightarrow> bool" where
  "well_typed t =
     ((case map_of t ''dueDate'' of Some VNone \<Rightarrow> True | Some (VTime d) \<Rightarrow> True | _ \<Rightarrow> False) \<and>
      (case map_of t ''completed'' of Some (VBool b) \<Rightarrow> True | _ \<Rightarrow> False))"

text \<open>
  In the spec's words: a task is overdue when its \<^verbatim>\<open>dueDate\<close> is set and strictly before
  now, and it is not completed.
\<close>

definition overdue_at :: "int \<Rightarrow> dict \<Rightarrow> bool" where
  "overdue_at now t =
     (case map_of t ''dueDate'' of
        Some (VTime d) \<Rightarrow> d < now \<and> map_of t ''completed'' = Some (VBool False)
      | _ \<Rightarrow> False)"

text \<open>A task that \<^verbatim>\<open>searchTasks\<close> can read: its title is text, and so is its description
  if it has one.\<close>

definition searchable :: "dict \<Rightarrow> bool" where
  "searchable t =
     ((case map_of t ''title'' of Some (VStr x) \<Rightarrow> True | _ \<Rightarrow> False) \<and>
      (case map_of t ''description'' of None \<Rightarrow> True | Some (VStr x) \<Rightarrow> True | _ \<Rightarrow> False))"

section \<open>Identifiers and reachable states\<close>

text \<open>The test \<^verbatim>\<open>t['id'] == taskId\<close> of the two lookups, on a task that has the key.\<close>

definition names :: "val \<Rightarrow> dict \<Rightarrow> bool" where
  "names taskId t = (case map_of t ''id'' of None \<Rightarrow> False | Some v \<Rightarrow> py_eq v taskId)"

text \<open>
  One call of a public operation of the manager, by anyone, under a fixed parser and
  clock. \<^verbatim>\<open>updateTask\<close> is taken with patches that do not hold the key \<^verbatim>\<open>id\<close>; a
  state is reachable when such calls lead to it from a new manager.
\<close>

inductive step :: "(string \<Rightarrow> string + datetime) \<Rightarrow> (nat \<Rightarrow> int) \<Rightarrow> TaskManager \<Rightarrow> TaskManager \<Rightarrow> bool"
  for fromisoformat :: "string \<Rightarrow> string + datetime" and clock :: "nat \<Rightarrow> int" where
  add: "step fromisoformat clock s (snd (addTask fromisoformat clock title priority_arg dueDate_arg s))"
| bulk: "step fromisoformat clock s (snd (bulkAddTasks fromisoformat clock taskData s))"
| complete: "step fromisoformat clock s (snd (completeTask clock taskId s))"
| update: "''id'' \<notin> set (map fst updates) \<Longrightarrow> step fromisoformat clock s (snd (updateTask taskId updates s))"
| observe: "step fromisoformat clock s (addObserver callback s)"
| unobserve: "step fromisoformat clock s (removeObserver callback s)"
| by_priority: "step fromisoformat clock s (snd (getTasksByPriority priority s))"
| overdue: "step fromisoformat clock s (snd (getOverdueTasks clock s))"
| statistics: "step fromisoformat clock s (snd (getTaskStats clock s))"

definition reachable :: "(string \<Rightarrow> string + datetime) \<Rightarrow> (nat \<Rightarrow> int) \<Rightarrow> TaskManager \<Rightarrow> bool" where
  "reachable fromisoformat clock s = (step fromisoformat clock)\<^sup>*\<^sup>* init s"

text \<open>
  The invariant of the reachable states: every task of either collection has an integer
  id between 1 and the counter, and no two tasks share one.
\<close>

definition id_in :: "int \<Rightarrow> dict \<Rightarrow> bool" where
  "id_in n t = (case map_of t ''id'' of Some (VInt i) \<Rightarrow> 0 < i \<and> i \<le> n | _ \<Rightarrow> False)"

definition ids_wf :: "TaskManager \<Rightarrow> bool" where
  "ids_wf s =
     (0 \<le> idCounter s \<and>
      distinct (map (\<lambda>t. map_of t ''id'') (tasks s @ completedTasks s)) \<and>
      (\<forall>t \<in> set (tasks s @ completedTasks s). id_in (idCounter s) t))"

text \<open>
  Where a patch with the key \<^verbatim>\<open>id\<close> leads: on the three tasks above,
  \<^verbatim>\<open>completeTask(1)\<close> and then \<^verbatim>\<open>updateTask(2, {'id': 1})\<close>.
\<close>

definition demo_clash :: TaskManager where
  "demo_clash =
     snd (updateTask (VInt 2) [(''id'', VInt 1)] (snd (completeTask demo_clock (VInt 1) demo_manager)))"

section \<open>Running the operations\<close>

lemmas run_simps =
  addTask_def updateTask_def completeTask_def init_def parse_dueDate_def validateTask_def
  getitem_def dunder_len_def notifyObservers_def setitem_def apply_updates_def dict_get_def
  getTasksByPriority_def getTaskStats_def getOverdueTasks_def calculateCompletionRate_def
  bulkAddTasks_def promise_args_def quoted_def demo_fromisoformat_def demo_clock_def Let_def

text \<open>
  C1. The spec wants \<^verbatim>\<open>updateTask\<close> to write only keys that name declared Task fields and
  to ignore every other key of the patch. The code assigns every key: after
  \<^verbatim>\<open>addTask('A')\<close> and \<^verbatim>\<open>updateTask(1, {'isAdmin': True})\<close> the open task carries the
  key \<^verbatim>\<open>isAdmin\<close>, which no task had before.
\<close>

theorem updateTask_writes_undeclared_key:
  "tasks (snd (updateTask (VInt 1) [(''isAdmin'', VBool True)]
           (snd (addTask demo_fromisoformat demo_clock (VStr ''A'') None None init)))) =
     [[(''id'', VInt 1), (''title'', VStr ''A''), (''priority'', VStr ''medium''),
       (''dueDate'', VNone), (''completed'', VBool False), (''createdAt'', VTime 1800000000),
       (''isAdmin'', VBool True)]]"
  by (simp add: run_simps)

text \<open>
  C2. The spec wants \<^verbatim>\<open>getTasksByPriority\<close> to return, within the call, every open task
  of the given priority. The code returns the list before any of its deferred callbacks
  has run: with one open task of priority \<^verbatim>\<open>high\<close>, \<^verbatim>\<open>getTasksByPriority('high')\<close>
  returns the empty list and leaves one callback with the event loop.
\<close>

theorem getTasksByPriority_returns_nothing:
  "tasks (snd (addTask demo_fromisoformat demo_clock (VStr ''Complete project'')
                 (Some (VStr ''high'')) (Some (VStr ''2024-01-15'')) init)) =
     [[(''id'', VInt 1), (''title'', VStr ''Complete project''), (''priority'', VStr ''high''),
       (''dueDate'', VTime 1705276800), (''completed'', VBool False),
       (''createdAt'', VTime 1800000000)]]
   \<and> fst (getTasksByPriority (VStr ''high'')
          (snd (addTask demo_fromisoformat demo_clock (VStr ''Complete project'')
                  (Some (VStr ''high'')) (Some (VStr ''2024-01-15'')) init))) = []
   \<and> scheduled (snd (getTasksByPriority (VStr ''high'')
          (snd (addTask demo_fromisoformat demo_clock (VStr ''Complete project'')
                  (Some (VStr ''high'')) (Some (VStr ''2024-01-15'')) init)))) = [(0, VStr ''high'')]"
  by (simp add: run_simps)

text \<open>
  C3. The spec wants \<^verbatim>\<open>completionRate\<close> to be 0 when both collections are empty. The
  code divides by the total without looking at it: on a new manager \<^verbatim>\<open>getTaskStats()\<close>
  raises \<^verbatim>\<open>ZeroDivisionError\<close>.
\<close>

theorem getTaskStats_divides_by_zero:
  "fst (getTaskStats demo_clock init) = Inl (ZeroDivisionError ''division by zero'')"
  by (simp add: run_simps)

text \<open>
  C4. The spec wants a task created without a priority to have priority \<^verbatim>\<open>medium\<close>.
  \<^verbatim>\<open>addTask('A')\<close> does that through the default of its signature, but \<^verbatim>\<open>bulkAddTasks\<close>
  passes \<^verbatim>\<open>d.get('priority')\<close>, which is \<^verbatim>\<open>None\<close> for an item without the key, so the
  default never applies: \<^verbatim>\<open>bulkAddTasks([{'title': 'A'}])\<close> creates a task whose priority
  is \<^verbatim>\<open>None\<close>.
\<close>

theorem bulkAddTasks_priority_None:
  "fst (addTask demo_fromisoformat demo_clock (VStr ''A'') None None init) =
     Inr [(''id'', VInt 1), (''title'', VStr ''A''), (''priority'', VStr ''medium''),
          (''dueDate'', VNone), (''completed'', VBool False), (''createdAt'', VTime 1800000000)]
   \<and> fst (bulkAddTasks demo_fromisoformat demo_clock [[(''title'', VStr ''A'')]] init) =
     [[(''id'', VInt 1), (''title'', VStr ''A''), (''priority'', VNone),
       (''dueDate'', VNone), (''completed'', VBool False), (''createdAt'', VTime 1800000000)]]"
  by (simp add: run_simps)




text \<open>
  C9, as the claim states it, fails: the empty string cannot be parsed as ISO-8601, but
  it is falsy, so \<^verbatim>\<open>addTask\<close> never hands it to \<^verbatim>\<open>fromisoformat\<close>. The call
  \<^verbatim>\<open>addTask('A', dueDate='')\<close> succeeds with no due date, and the id counter advances.
\<close>

theorem addTask_empty_dueDate_counterexample:
  "demo_fromisoformat [] = Inl (''Invalid isoformat string: '' @ quoted [])
   \<and> fst (addTask demo_fromisoformat demo_clock (VStr ''A'') None (Some (VStr [])) init) =
       Inr [(''id'', VInt 1), (''title'', VStr ''A''), (''priority'', VStr ''medium''),
            (''dueDate'', VNone), (''completed'', VBool False), (''createdAt'', VTime 1800000000)]
   \<and> idCounter (snd (addTask demo_fromisoformat demo_clock (VStr ''A'') None (Some (VStr [])) init)) = 1
   \<and> length (tasks (snd (addTask demo_fromisoformat demo_clock (VStr ''A'') None (Some (VStr [])) init))) = 1"
  by (simp add: run_simps)

text \<open>
  C9, amended. For every \<^verbatim>\<open>addTask\<close> call whose due date is a non-empty string that
  \<^verbatim>\<open>fromisoformat\<close> rejects, the call fails with that \<^verbatim>\<open>ValueError\<close> and the whole
  manager is unchanged: the id counter, both collections and the observers' calls.
\<close>

theorem addTask_unparsable_dueDate:
  assumes "fromisoformat d = Inl m" and "d \<noteq> []"
  shows "addTask fromisoformat clock title priority_arg (Some (VStr d)) s = (Inl (ValueError m), s)"
  using assms by (simp add: addTask_def parse_dueDate_def)

theorem addTask_unparsable_dueDate_witness:
  "demo_fromisoformat ''invalid-date'' = Inl (''Invalid isoformat string: '' @ quoted ''invalid-date'')
   \<and> ''invalid-date'' \<noteq> []
   \<and> addTask demo_fromisoformat demo_clock (VStr ''Review code'') (Some (VStr ''medium''))
         (Some (VStr ''invalid-date'')) init
       = (Inl (ValueError (''Invalid isoformat string: '' @ quoted ''invalid-date'')), init)"
proof -
  have p: "demo_fromisoformat ''invalid-date'' = Inl (''Invalid isoformat string: '' @ quoted ''invalid-date'')"
    by (simp add: demo_fromisoformat_def)
  have n: "''invalid-date'' \<noteq> []" by simp
  show ?thesis
    using p n addTask_unparsable_dueDate [where fromisoformat = demo_fromisoformat
      and d = "''invalid-date''" and clock = demo_clock and title = "VStr ''Review code''"
      and priority_arg = "Some (VStr ''medium'')" and s = init, OF p n]
    by simp
qed

section \<open>Bulk creation\<close>

lemma await_all_Cons:
  "await_all f c ((title, priority, dueDate) # ps) s =
     ((case fst (addTask f c title (Some priority) (Some dueDate) s) of
         Inr task \<Rightarrow> task | Inl e \<Rightarrow> [(''error'', VStr (str_error e))])
      # fst (await_all f c ps (snd (addTask f c title (Some priority) (Some dueDate) s))),
      snd (await_all f c ps (snd (addTask f c title (Some priority) (Some dueDate) s))))"
  by (simp add: case_prod_unfold)

lemma await_all_length: "length (fst (await_all f c ps s)) = length ps"
proof (induction ps arbitrary: s)
  case Nil
  show ?case by simp
next
  case (Cons p ps)
  obtain title priority dueDate where p: "p = (title, priority, dueDate)" by (cases p) auto
  show ?case unfolding p await_all_Cons by (simp add: Cons.IH)
qed

lemma await_all_nth:
  "i < length ps \<Longrightarrow>
   fst (await_all f c ps s) ! i =
     (case ps ! i of (title, priority, dueDate) \<Rightarrow>
        (case fst (addTask f c title (Some priority) (Some dueDate) (snd (await_all f c (take i ps) s))) of
           Inr task \<Rightarrow> task | Inl e \<Rightarrow> [(''error'', VStr (str_error e))]))"
proof (induction ps arbitrary: s i)
  case Nil
  then show ?case by simp
next
  case (Cons p ps)
  obtain title priority dueDate where p: "p = (title, priority, dueDate)" by (cases p) auto
  show ?case
  proof (cases i)
    case 0
    then show ?thesis unfolding p await_all_Cons by simp
  next
    case (Suc j)
    with Cons.prems have j: "j < length ps" by simp
    show ?thesis unfolding p Suc take_Suc_Cons await_all_Cons
      using Cons.IH [OF j] by simp
  qed
qed

text \<open>
  C7. For every input sequence, \<^verbatim>\<open>bulkAddTasks\<close> returns a sequence of the same length.
  Its element at position \<open>i\<close> comes from the \<^verbatim>\<open>addTask\<close> call for item \<open>i\<close>, run in the
  state the items before it left behind, whether they failed or not: the task when the
  call succeeds, and \<^verbatim>\<open>{'error': str(e)}\<close> with the message of the failure when it
  fails.
\<close>

theorem bulkAddTasks_positions:
  "length (fst (bulkAddTasks f c taskData s)) = length taskData \<and>
   (\<forall>i < length taskData.
      fst (bulkAddTasks f c taskData s) ! i =
        (case fst (addTask f c (dict_get (taskData ! i) ''title'' VNone)
                     (Some (dict_get (taskData ! i) ''priority'' VNone))
                     (Some (dict_get (taskData ! i) ''dueDate'' VNone))
                     (snd (bulkAddTasks f c (take i taskData) s))) of
           Inr task \<Rightarrow> task
         | Inl e \<Rightarrow> [(''error'', VStr (str_error e))]))"
  by (simp add: bulkAddTasks_def await_all_length await_all_nth take_map promise_args_def)

theorem bulkAddTasks_positions_witness:
  "length (fst (bulkAddTasks demo_fromisoformat demo_clock
          [[(''title'', VStr ''A'')], [(''title'', VStr [])], [(''title'', VStr ''B'')]] init)) = 3
   \<and> fst (bulkAddTasks demo_fromisoformat demo_clock
          [[(''title'', VStr ''A'')], [(''title'', VStr [])], [(''title'', VStr ''B'')]] init) ! 0 =
       [(''id'', VInt 1), (''title'', VStr ''A''), (''priority'', VNone), (''dueDate'', VNone),
        (''completed'', VBool False), (''createdAt'', VTime 1800000000)]
   \<and> fst (bulkAddTasks demo_fromisoformat demo_clock
          [[(''title'', VStr ''A'')], [(''title'', VStr [])], [(''title'', VStr ''B'')]] init) ! 1 =
       [(''error'', VStr ''False'')]
   \<and> fst (bulkAddTasks demo_fromisoformat demo_clock
          [[(''title'', VStr ''A'')], [(''title'', VStr [])], [(''title'', VStr ''B'')]] init) ! 2 =
       [(''id'', VInt 3), (''title'', VStr ''B''), (''priority'', VNone), (''dueDate'', VNone),
        (''completed'', VBool False), (''createdAt'', VTime 1800000002)]"
  using bulkAddTasks_positions [of demo_fromisoformat demo_clock
          "[[(''title'', VStr ''A'')], [(''title'', VStr [])], [(''title'', VStr ''B'')]]" init]
  by (simp add: run_simps)

section \<open>Overdue tasks\<close>

lemma demo_manager_eval:
  "demo_manager =
     \<lparr>tasks =
        [[(''id'', VInt 1), (''title'', VStr ''Review code''), (''priority'', VStr ''medium''),
          (''dueDate'', VTime 1705708800), (''completed'', VBool False), (''createdAt'', VTime 1800000000)],
         [(''id'', VInt 2), (''title'', VStr ''Complete project''), (''priority'', VStr ''high''),
          (''dueDate'', VTime 1705276800), (''completed'', VBool False), (''createdAt'', VTime 1800000001)],
         [(''id'', VInt 3), (''title'', VStr ''Plan''), (''priority'', VStr ''medium''),
          (''dueDate'', VNone), (''completed'', VBool False), (''createdAt'', VTime 1800000002)]],
      completedTasks = [], observers = [], idCounter = 3, reads = 3, calls = [], scheduled = []\<rparr>"
  by (simp add: demo_manager_def run_simps)

lemma is_overdue_well_typed: "well_typed t \<Longrightarrow> is_overdue now t = Inr (overdue_at now t)"
  by (auto simp: well_typed_def is_overdue_def overdue_at_def getitem_def lt_datetime_def
           split: option.splits val.splits)

lemma overdue_filter_well_typed:
  "\<forall>t \<in> set ts. well_typed t \<Longrightarrow> overdue_filter now ts = Inr (filter (overdue_at now) ts)"
  by (induction ts) (simp_all add: is_overdue_well_typed)

lemma overdue_at_due_key:
  "overdue_at now t \<Longrightarrow> map_of t ''dueDate'' = Some (VTime (due_key t)) \<and> due_key t < now"
  by (auto simp: overdue_at_def due_key_def split: option.splits val.splits)

text \<open>
  C8, as the claim states it, fails: \<^verbatim>\<open>getOverdueTasks\<close> compares every truthy
  \<^verbatim>\<open>dueDate\<close> with the naive \<^verbatim>\<open>datetime.now()\<close>, and the comparison raises when the
  due date is not a naive datetime. Python raises \<^verbatim>\<open>TypeError\<close> after
  \<^verbatim>\<open>addTask('A', dueDate='2024-01-15T00:00:00+00:00')\<close>, whose due date carries an offset,
  and after \<^verbatim>\<open>addTask('A')\<close> and \<^verbatim>\<open>updateTask(1, {'dueDate': '2024-02-01'})\<close>, whose due
  date is a string; in neither state does the call return a list.
\<close>

theorem getOverdueTasks_raises_counterexample:
  "tasks (snd (addTask demo_fromisoformat demo_clock (VStr ''A'') None
                 (Some (VStr ''2024-01-15T00:00:00+00:00'')) init)) =
     [[(''id'', VInt 1), (''title'', VStr ''A''), (''priority'', VStr ''medium''),
       (''dueDate'', VAware 1705276800), (''completed'', VBool False),
       (''createdAt'', VTime 1800000000)]]
   \<and> fst (getOverdueTasks demo_clock
          (snd (addTask demo_fromisoformat demo_clock (VStr ''A'') None
                  (Some (VStr ''2024-01-15T00:00:00+00:00'')) init))) =
       Inl (TypeError (''can'' @ [CHR 0x27] @ ''t compare offset-naive and offset-aware datetimes''))
   \<and> fst (getOverdueTasks demo_clock
          (snd (updateTask (VInt 1) [(''dueDate'', VStr ''2024-02-01'')]
                  (snd (addTask demo_fromisoformat demo_clock (VStr ''A'') None None init))))) =
       Inl (TypeError (quoted ''<'' @ '' not supported between instances of '' @ quoted ''str''
              @ '' and '' @ quoted ''datetime.datetime''))"
  by (simp add: run_simps is_overdue_def lt_datetime_def)

text \<open>
  C8, amended. For every manager state whose open tasks hold \<^verbatim>\<open>None\<close> or a naive
  datetime as \<^verbatim>\<open>dueDate\<close> and a boolean as \<^verbatim>\<open>completed\<close>,
  \<^verbatim>\<open>getOverdueTasks()\<close> returns exactly the open tasks that are not completed and whose
  \<^verbatim>\<open>dueDate\<close> is set and strictly before the current reading of the clock (each as often
  as it stands in the open collection), sorted ascending by \<^verbatim>\<open>dueDate\<close>, ties in the
  order of the open collection; every task returned has a \<^verbatim>\<open>dueDate\<close>, so a task without
  one never appears.
\<close>

theorem getOverdueTasks_sorted_overdue:
  assumes "\<forall>t \<in> set (tasks s). well_typed t"
  shows "\<exists>r. fst (getOverdueTasks clock s) = Inr r
           \<and> r = sort_key due_key (filter (overdue_at (clock (reads s))) (tasks s))
           \<and> sorted (map due_key r)
           \<and> mset r = filter_mset (overdue_at (clock (reads s))) (mset (tasks s))
           \<and> (\<forall>t \<in> set r. map_of t ''dueDate'' = Some (VTime (due_key t)) \<and> due_key t < clock (reads s))"
proof -
  let ?r = "sort_key due_key (filter (overdue_at (clock (reads s))) (tasks s))"
  have "fst (getOverdueTasks clock s) = Inr ?r"
    using assms by (simp add: getOverdueTasks_def Let_def overdue_filter_well_typed)
  moreover have "sorted (map due_key ?r)" by simp
  moreover have "mset ?r = filter_mset (overdue_at (clock (reads s))) (mset (tasks s))" by simp
  moreover have "\<forall>t \<in> set ?r. map_of t ''dueDate'' = Some (VTime (due_key t)) \<and> due_key t < clock (reads s)"
    by (auto dest: overdue_at_due_key)
  ultimately show ?thesis by blast
qed

theorem getOverdueTasks_sorted_overdue_witness:
  "list_all well_typed (tasks demo_manager)
   \<and> fst (getOverdueTasks demo_clock demo_manager) =
       Inr [[(''id'', VInt 2), (''title'', VStr ''Complete project''), (''priority'', VStr ''high''),
             (''dueDate'', VTime 1705276800), (''completed'', VBool False), (''createdAt'', VTime 1800000001)],
            [(''id'', VInt 1), (''title'', VStr ''Review code''), (''priority'', VStr ''medium''),
             (''dueDate'', VTime 1705708800), (''completed'', VBool False), (''createdAt'', VTime 1800000000)]]"
proof -
  have w: "\<forall>t \<in> set (tasks demo_manager). well_typed t"
    by (simp add: demo_manager_eval well_typed_def)
  from getOverdueTasks_sorted_overdue [OF w, of demo_clock]
  have "fst (getOverdueTasks demo_clock demo_manager) =
          Inr (sort_key due_key (filter (overdue_at (demo_clock (reads demo_manager))) (tasks demo_manager)))"
    by blast
  then show ?thesis using w
    by (simp add: demo_manager_eval overdue_at_def due_key_def demo_clock_def list_all_iff)
qed

section \<open>Search\<close>

lemma matches_searchable: "searchable t \<Longrightarrow> \<exists>b. matches q t = Inr b"
  by (auto simp: searchable_def matches_def getitem_def lower_def dict_get_def
           split: option.splits val.splits)

lemma search_filter_returns: "\<forall>t \<in> set ts. searchable t \<Longrightarrow> \<exists>r. search_filter q ts = Inr r"
proof (induction ts)
  case Nil
  show ?case by simp
next
  case (Cons t ts)
  then obtain b r where "matches q t = Inr b" "search_filter q ts = Inr r"
    using matches_searchable [of t q] by auto
  then show ?case by simp
qed

lemma search_filter_subseq: "search_filter q ts = Inr r \<Longrightarrow> subseq r ts"
  by (induction ts arbitrary: r) (auto split: sum.splits if_splits)

lemma search_filter_subset: "search_filter q ts = Inr r \<Longrightarrow> set r \<subseteq> set ts"
  by (induction ts arbitrary: r) (auto split: sum.splits if_splits)

text \<open>
  C10. For every query string, whatever \<^verbatim>\<open>searchTasks(query)\<close> returns is drawn from the
  open collection, in its order; a task that stands only in the completed collection is
  not in the result, and the result is the same whatever the completed collection holds.
  The call does return when every open task has a text title and, if it has a
  description, a text description.
\<close>

theorem searchTasks_open_only:
  "(\<forall>r. searchTasks query s = Inr r \<longrightarrow>
        subseq r (tasks s) \<and> set r \<subseteq> set (tasks s)
        \<and> (\<forall>t \<in> set (completedTasks s). t \<notin> set (tasks s) \<longrightarrow> t \<notin> set r)
        \<and> (\<forall>cs. searchTasks query (s\<lparr>completedTasks := cs\<rparr>) = Inr r))
   \<and> ((\<forall>t \<in> set (tasks s). searchable t) \<longrightarrow> (\<exists>r. searchTasks query s = Inr r))"
proof -
  have a: "subseq r (tasks s)" if "searchTasks query s = Inr r" for r
    using that by (simp add: searchTasks_def search_filter_subseq)
  have b: "set r \<subseteq> set (tasks s)" if "searchTasks query s = Inr r" for r
    using that by (simp add: searchTasks_def search_filter_subset)
  have c: "\<exists>r. searchTasks query s = Inr r" if "\<forall>t \<in> set (tasks s). searchable t"
    using that by (simp add: searchTasks_def search_filter_returns)
  have d: "searchTasks query (s\<lparr>completedTasks := cs\<rparr>) = searchTasks query s" for cs
    by (simp add: searchTasks_def)
  show ?thesis using a b c d by (simp add: subset_iff) blast
qed

theorem searchTasks_open_only_witness:
  "list_all searchable (tasks demo_manager)
   \<and> searchTasks ''CODE'' demo_manager =
       Inr [[(''id'', VInt 1), (''title'', VStr ''Review code''), (''priority'', VStr ''medium''),
             (''dueDate'', VTime 1705708800), (''completed'', VBool False), (''createdAt'', VTime 1800000000)]]
   \<and> searchTasks ''CODE'' (demo_manager\<lparr>completedTasks := tasks demo_manager\<rparr>) =
       Inr [[(''id'', VInt 1), (''title'', VStr ''Review code''), (''priority'', VStr ''medium''),
             (''dueDate'', VTime 1705708800), (''completed'', VBool False), (''createdAt'', VTime 1800000000)]]"
proof -
  have w: "\<forall>t \<in> set (tasks demo_manager). searchable t"
    by (simp add: demo_manager_eval searchable_def)
  have e: "searchTasks ''CODE'' demo_manager =
       Inr [[(''id'', VInt 1), (''title'', VStr ''Review code''), (''priority'', VStr ''medium''),
             (''dueDate'', VTime 1705708800), (''completed'', VBool False), (''createdAt'', VTime 1800000000)]]"
    by (simp add: demo_manager_eval searchTasks_def matches_def getitem_def lower_def dict_get_def
          lower_char_def sublist_Cons_right)
  show ?thesis
    using w e searchTasks_open_only [of "''CODE''" demo_manager]
    by (simp add: list_all_iff)
qed

section \<open>Completion\<close>

lemma id_in_mono: "id_in n t \<Longrightarrow> n \<le> m \<Longrightarrow> id_in m t"
  by (auto simp: id_in_def split: option.splits val.splits)

lemma id_in_not_next: "id_in n t \<Longrightarrow> map_of t ''id'' \<noteq> Some (VInt (n + 1))"
  by (auto simp: id_in_def split: option.splits val.splits)

lemma id_in_cong: "map_of u ''id'' = map_of t ''id'' \<Longrightarrow> id_in n u = id_in n t"
  by (simp add: id_in_def)

lemma notifyObservers_fields [simp]:
  "tasks (notifyObservers e d s) = tasks s"
  "completedTasks (notifyObservers e d s) = completedTasks s"
  "idCounter (notifyObservers e d s) = idCounter s"
  "observers (notifyObservers e d s) = observers s"
  "reads (notifyObservers e d s) = reads s"
  by (simp_all add: notifyObservers_def)

lemma ids_wf_notify [simp]: "ids_wf (notifyObservers e d s) = ids_wf s"
  by (simp add: ids_wf_def)

lemma ids_wf_init: "ids_wf init"
  by (simp add: ids_wf_def init_def)

lemma ids_wf_counter: "ids_wf s \<Longrightarrow> ids_wf (s\<lparr>reads := r, idCounter := idCounter s + 1\<rparr>)"
  by (auto simp: ids_wf_def intro: id_in_mono)

lemma distinct_map_insert:
  "distinct (map g (xs @ cs)) \<Longrightarrow> g y \<notin> g ` set (xs @ cs) \<Longrightarrow> distinct (map g ((xs @ [y]) @ cs))"
  by auto

lemma ids_wf_fresh:
  assumes "ids_wf s" and "map_of task ''id'' = Some (VInt (idCounter s + 1))"
  shows "ids_wf (s\<lparr>reads := r, idCounter := idCounter s + 1, tasks := tasks s @ [task]\<rparr>)"
proof -
  have "map_of t ''id'' \<noteq> Some (VInt (idCounter s + 1))" if "t \<in> set (tasks s @ completedTasks s)" for t
    using assms(1) that id_in_not_next [of "idCounter s" t] by (simp add: ids_wf_def)
  then have fresh: "map_of task ''id'' \<notin> (\<lambda>t. map_of t ''id'') ` set (tasks s @ completedTasks s)"
    unfolding assms(2) by (metis (no_types, lifting) imageE)
  have d: "distinct (map (\<lambda>t. map_of t ''id'') ((tasks s @ [task]) @ completedTasks s))"
    using assms(1) fresh by (intro distinct_map_insert) (simp_all add: ids_wf_def)
  have new: "id_in (idCounter s + 1) task"
    using assms by (simp add: id_in_def ids_wf_def)
  have old: "id_in (idCounter s + 1) t" if "t \<in> set (tasks s @ completedTasks s)" for t
    using assms(1) that by (auto simp: ids_wf_def intro: id_in_mono)
  have "\<forall>t \<in> set ((tasks s @ [task]) @ completedTasks s). id_in (idCounter s + 1) t"
    using new old by auto
  with d assms(1) show ?thesis by (simp add: ids_wf_def)
qed

lemma ids_wf_addTask: "ids_wf s \<Longrightarrow> ids_wf (snd (addTask f c title p d s))"
  by (auto simp: addTask_def Let_def ids_wf_counter ids_wf_fresh split: sum.splits)

lemma ids_wf_await_all: "ids_wf s \<Longrightarrow> ids_wf (snd (await_all f c ps s))"
proof (induction ps arbitrary: s)
  case Nil
  then show ?case by simp
next
  case (Cons p ps)
  obtain title priority dueDate where p: "p = (title, priority, dueDate)" by (cases p) auto
  show ?case unfolding p await_all_Cons
    using Cons.IH [OF ids_wf_addTask [OF Cons.prems]] by simp
qed

lemma ids_wf_bulkAddTasks: "ids_wf s \<Longrightarrow> ids_wf (snd (bulkAddTasks f c taskData s))"
  by (simp add: bulkAddTasks_def ids_wf_await_all)

lemma map_of_setitem: "map_of (setitem k v d) k' = (if k' = k then Some v else map_of d k')"
  by (simp add: setitem_def update_conv)

lemma index_of_id_Some:
  "index_of_id ts taskId = Inr (Some i) \<Longrightarrow>
     i < length ts \<and> names taskId (ts ! i) \<and> (\<forall>j < i. \<not> names taskId (ts ! j))"
proof (induction ts arbitrary: i)
  case Nil
  then show ?case by simp
next
  case (Cons t ts)
  show ?case
  proof (cases "names taskId t")
    case True
    with Cons.prems have "i = 0"
      by (auto simp: names_def getitem_def split: option.splits)
    with True show ?thesis by simp
  next
    case False
    with Cons.prems obtain k where k: "index_of_id ts taskId = Inr (Some k)" "i = Suc k"
      by (auto simp: names_def getitem_def split: option.splits sum.splits if_splits)
    from Cons.IH [OF k(1)] False k(2) show ?thesis
      by (auto simp: less_Suc_eq_0_disj)
  qed
qed

lemma index_of_id_None:
  "index_of_id ts taskId = Inr None \<Longrightarrow> \<forall>t \<in> set ts. \<not> names taskId t"
  by (induction ts) (auto simp: names_def getitem_def split: option.splits sum.splits if_splits)

lemma index_of_id_absent:
  "\<forall>t \<in> set ts. map_of t ''id'' \<noteq> None \<and> \<not> names taskId t \<Longrightarrow> index_of_id ts taskId = Inr None"
  by (induction ts) (auto simp: names_def getitem_def split: option.splits)

lemma distinct_map_move:
  assumes "distinct (map g (xs @ cs))" and "i < length xs" and "g y = g (xs ! i)"
  shows "distinct (map g ((take i xs @ drop (Suc i) xs) @ (cs @ [y])))"
proof -
  have xs: "xs = take i xs @ xs ! i # drop (Suc i) xs"
    using assms(2) by (simp add: id_take_nth_drop)
  have "distinct (map g ((take i xs @ xs ! i # drop (Suc i) xs) @ cs))"
    using assms(1) xs by simp
  then show ?thesis using assms(3) by auto
qed

lemma set_move:
  assumes "i < length xs"
  shows "set ((take i xs @ drop (Suc i) xs) @ (cs @ [y])) \<subseteq> insert y (set (xs @ cs))"
  using assms by (auto dest: in_set_takeD in_set_dropD)

lemma ids_wf_completeTask: "ids_wf s \<Longrightarrow> ids_wf (snd (completeTask c taskId s))"
proof -
  assume wf: "ids_wf s"
  show ?thesis
  proof (cases "index_of_id (tasks s) taskId")
    case (Inl e)
    with wf show ?thesis by (simp add: completeTask_def)
  next
    case (Inr r)
    show ?thesis
    proof (cases r)
      case None
      with Inr wf show ?thesis by (simp add: completeTask_def)
    next
      case (Some i)
      let ?t = "tasks s ! i"
      let ?y = "setitem ''completedAt'' (VTime (c (reads s))) (setitem ''completed'' (VBool True) ?t)"
      have i: "i < length (tasks s)" using index_of_id_Some Inr Some by blast
      have same: "map_of ?y ''id'' = map_of ?t ''id''" by (simp add: map_of_setitem)
      have d: "distinct (map (\<lambda>t. map_of t ''id'')
                 ((take i (tasks s) @ drop (Suc i) (tasks s)) @ (completedTasks s @ [?y])))"
        using wf i same by (intro distinct_map_move) (simp_all add: ids_wf_def)
      have "id_in (idCounter s) ?y"
        using wf i id_in_cong [OF same] by (simp add: ids_wf_def)
      then have b: "\<forall>t \<in> set ((take i (tasks s) @ drop (Suc i) (tasks s)) @ (completedTasks s @ [?y])).
                     id_in (idCounter s) t"
        using wf set_move [OF i, of "completedTasks s" ?y] by (auto simp: ids_wf_def)
      show ?thesis using Inr Some d b wf
        by (simp add: completeTask_def Let_def ids_wf_def)
    qed
  qed
qed

lemma map_of_apply_keys:
  "''id'' \<notin> set ks \<Longrightarrow>
   map_of (foldl (\<lambda>t key. setitem key (dict_get updates key VNone) t) task ks) ''id'' = map_of task ''id''"
  by (induction ks arbitrary: task) (auto simp: map_of_setitem)

lemma map_of_apply_updates:
  "''id'' \<notin> set (map fst updates) \<Longrightarrow> map_of (apply_updates updates task) ''id'' = map_of task ''id''"
  unfolding apply_updates_def by (rule map_of_apply_keys)

lemma map_list_update_same: "i < length xs \<Longrightarrow> g y = g (xs ! i) \<Longrightarrow> map g (xs[i := y]) = map g xs"
  by (simp add: map_update list_update_same_conv)

lemma ids_wf_updateTask:
  assumes "ids_wf s" and "''id'' \<notin> set (map fst updates)"
  shows "ids_wf (snd (updateTask taskId updates s))"
proof (cases "index_of_id (tasks s) taskId")
  case (Inl e)
  with assms show ?thesis by (simp add: updateTask_def)
next
  case (Inr r)
  show ?thesis
  proof (cases r)
    case None
    with Inr assms show ?thesis by (simp add: updateTask_def)
  next
    case (Some i)
    let ?y = "apply_updates updates (tasks s ! i)"
    have i: "i < length (tasks s)" using index_of_id_Some Inr Some by blast
    have same: "map_of ?y ''id'' = map_of (tasks s ! i) ''id''"
      using assms(2) by (rule map_of_apply_updates)
    have m: "map (\<lambda>t. map_of t ''id'') ((tasks s)[i := ?y]) = map (\<lambda>t. map_of t ''id'') (tasks s)"
      using i same by (rule map_list_update_same)
    have d: "distinct (map (\<lambda>t. map_of t ''id'') ((tasks s)[i := ?y] @ completedTasks s))"
      using assms(1) m by (simp add: ids_wf_def)
    have "id_in (idCounter s) ?y"
      using assms(1) i id_in_cong [OF same] by (simp add: ids_wf_def)
    then have b: "\<forall>t \<in> set ((tasks s)[i := ?y] @ completedTasks s). id_in (idCounter s) t"
      using assms(1) set_update_subset_insert [of "tasks s" i ?y] by (auto simp: ids_wf_def)
    have "ids_wf (s\<lparr>tasks := (tasks s)[i := ?y]\<rparr>)"
      unfolding ids_wf_def using d b assms(1) by (simp add: ids_wf_def)
    then show ?thesis using Inr Some assms(1)
      by (simp add: updateTask_def Let_def)
  qed
qed

lemma ids_wf_step: "step f c s s' \<Longrightarrow> ids_wf s \<Longrightarrow> ids_wf s'"
proof (induction rule: step.induct)
  case (add s title priority_arg dueDate_arg)
  then show ?case by (rule ids_wf_addTask)
next
  case (bulk s taskData)
  then show ?case by (rule ids_wf_bulkAddTasks)
next
  case (complete s taskId)
  then show ?case by (rule ids_wf_completeTask)
next
  case (update updates s taskId)
  then show ?case by (simp add: ids_wf_updateTask)
next
  case (observe s callback)
  then show ?case by (simp add: ids_wf_def addObserver_def)
next
  case (unobserve s callback)
  then show ?case by (simp add: ids_wf_def removeObserver_def)
next
  case (by_priority s priority)
  then show ?case by (simp add: ids_wf_def getTasksByPriority_def Let_def)
next
  case (overdue s)
  then show ?case by (simp add: ids_wf_def getOverdueTasks_def Let_def split: sum.splits)
next
  case (statistics s)
  then show ?case
    by (auto simp: ids_wf_def getTaskStats_def getOverdueTasks_def Let_def split: sum.splits prod.splits)
qed

lemma ids_wf_steps: "(step f c)\<^sup>*\<^sup>* s s' \<Longrightarrow> ids_wf s \<Longrightarrow> ids_wf s'"
  by (induction rule: rtranclp_induct) (auto intro: ids_wf_step)

lemma reachable_ids_wf: "reachable f c s \<Longrightarrow> ids_wf s"
  unfolding reachable_def by (rule ids_wf_steps [OF _ ids_wf_init])


lemma completed_addTask: "completedTasks (snd (addTask f c title p d s)) = completedTasks s"
  by (auto simp: addTask_def Let_def split: sum.splits)

lemma completed_await_all: "completedTasks (snd (await_all f c ps s)) = completedTasks s"
proof (induction ps arbitrary: s)
  case Nil
  show ?case by simp
next
  case (Cons p ps)
  obtain title priority dueDate where p: "p = (title, priority, dueDate)" by (cases p) auto
  show ?case unfolding p await_all_Cons by (simp add: Cons.IH completed_addTask)
qed

lemma completed_step: "step f c s s' \<Longrightarrow> set (completedTasks s) \<subseteq> set (completedTasks s')"
proof (induction rule: step.induct)
  case (add s title priority_arg dueDate_arg)
  show ?case by (simp add: completed_addTask)
next
  case (bulk s taskData)
  show ?case by (simp add: bulkAddTasks_def completed_await_all)
next
  case (complete s taskId)
  show ?case by (auto simp: completeTask_def Let_def split: sum.splits option.splits)
next
  case (update updates s taskId)
  show ?case by (auto simp: updateTask_def Let_def split: sum.splits option.splits)
next
  case (observe s callback)
  show ?case by (simp add: addObserver_def)
next
  case (unobserve s callback)
  show ?case by (simp add: removeObserver_def)
next
  case (by_priority s priority)
  show ?case by (simp add: getTasksByPriority_def Let_def)
next
  case (overdue s)
  show ?case by (simp add: getOverdueTasks_def Let_def split: sum.splits)
next
  case (statistics s)
  show ?case
    by (auto simp: getTaskStats_def getOverdueTasks_def Let_def split: sum.splits prod.splits)
qed

lemma completed_steps: "(step f c)\<^sup>*\<^sup>* s s' \<Longrightarrow> set (completedTasks s) \<subseteq> set (completedTasks s')"
  by (induction rule: rtranclp_induct) (auto dest: completed_step)

lemma names_same_id:
  assumes "id_in n t" and "id_in m u" and "names x t" and "names x u"
  shows "map_of t ''id'' = map_of u ''id''"
  using assms by (cases x) (auto simp: id_in_def names_def split: option.splits val.splits if_splits)

lemma distinct_map_eq: "distinct (map g xs) \<Longrightarrow> x \<in> set xs \<Longrightarrow> y \<in> set xs \<Longrightarrow> g x = g y \<Longrightarrow> x = y"
  by (auto simp: distinct_map dest: inj_onD)

lemma index_of_id_present:
  "\<forall>t \<in> set ts. map_of t ''id'' \<noteq> None \<Longrightarrow> \<exists>t \<in> set ts. names taskId t \<Longrightarrow>
     \<exists>i. index_of_id ts taskId = Inr (Some i)"
proof (induction ts)
  case Nil
  then show ?case by simp
next
  case (Cons t ts)
  from Cons.prems(1) obtain v where v: "map_of t ''id'' = Some v" by auto
  show ?case
  proof (cases "py_eq v taskId")
    case True
    with v show ?thesis by (simp add: getitem_def)
  next
    case False
    with v Cons.prems(2) have "\<exists>u \<in> set ts. names taskId u" by (auto simp: names_def)
    with Cons.IH Cons.prems(1) obtain i where "index_of_id ts taskId = Inr (Some i)" by auto
    with v False show ?thesis by (simp add: getitem_def)
  qed
qed

lemma remove1_nth_distinct:
  "distinct xs \<Longrightarrow> i < length xs \<Longrightarrow> remove1 (xs ! i) xs = take i xs @ drop (Suc i) xs"
proof (induction xs arbitrary: i)
  case Nil
  then show ?case by simp
next
  case (Cons x xs)
  show ?case
  proof (cases i)
    case 0
    then show ?thesis by simp
  next
    case (Suc j)
    with Cons.prems have "xs ! j \<in> set xs" "x \<notin> set xs" by auto
    then have "xs ! j \<noteq> x" by auto
    with Cons Suc show ?thesis by simp
  qed
qed

lemma id_in_has_id: "id_in n t \<Longrightarrow> map_of t ''id'' \<noteq> None"
  by (auto simp: id_in_def split: option.splits)

lemma id_in_VInt: "id_in n t \<Longrightarrow> \<exists>i. map_of t ''id'' = Some (VInt i)"
  by (auto simp: id_in_def split: option.splits val.splits)

lemma ids_wf_find:
  assumes wf: "ids_wf s" and t: "t \<in> set (tasks s)" and n: "names taskId t"
  shows "\<exists>i. index_of_id (tasks s) taskId = Inr (Some i) \<and> i < length (tasks s) \<and> tasks s ! i = t"
proof -
  have "id_in (idCounter s) u" if "u \<in> set (tasks s)" for u
    using wf that by (simp add: ids_wf_def)
  then have ids: "\<forall>u \<in> set (tasks s). map_of u ''id'' \<noteq> None"
    using id_in_has_id by blast
  then obtain i where i: "index_of_id (tasks s) taskId = Inr (Some i)"
    using index_of_id_present [of "tasks s" taskId] t n by blast
  from index_of_id_Some [OF i] have il: "i < length (tasks s)" and ni: "names taskId (tasks s ! i)"
    by simp_all
  have "map_of (tasks s ! i) ''id'' = map_of t ''id''"
    using wf t il ni n names_same_id [of "idCounter s" "tasks s ! i" "idCounter s" t taskId]
    by (simp add: ids_wf_def)
  moreover have "distinct (map (\<lambda>t. map_of t ''id'') (tasks s))"
    using wf by (simp add: ids_wf_def)
  ultimately have "tasks s ! i = t"
    using t il distinct_map_eq [of "\<lambda>t. map_of t ''id''" "tasks s" "tasks s ! i" t] by simp
  with i il show ?thesis by blast
qed

lemma ids_wf_completed_not_open:
  assumes wf: "ids_wf s" and y: "y \<in> set (completedTasks s)" and n: "names taskId y"
  shows "index_of_id (tasks s) taskId = Inr None"
proof (rule index_of_id_absent, rule ballI)
  fix u assume u: "u \<in> set (tasks s)"
  have iu: "id_in (idCounter s) u" and iy: "id_in (idCounter s) y"
    using wf u y by (simp_all add: ids_wf_def)
  have "map_of u ''id'' \<noteq> map_of y ''id''"
    using wf u y by (auto simp: ids_wf_def)
  then have "\<not> names taskId u"
    using names_same_id [OF iu iy _ n] by blast
  with iu show "map_of u ''id'' \<noteq> None \<and> \<not> names taskId u"
    by (simp add: id_in_has_id)
qed


lemma map_of_setitem_fun: "map_of (setitem k v d) = (map_of d)(k \<mapsto> v)"
  by (simp add: setitem_def update_conv')

lemma reachable_step: "reachable f c s \<Longrightarrow> step f c s s' \<Longrightarrow> reachable f c s'"
  unfolding reachable_def by (rule rtranclp.rtrancl_into_rtrancl)

lemma reachable_steps: "reachable f c s \<Longrightarrow> (step f c)\<^sup>*\<^sup>* s s' \<Longrightarrow> reachable f c s'"
  unfolding reachable_def by (rule rtranclp_trans)

lemma reachable_demo_manager: "reachable demo_fromisoformat demo_clock demo_manager"
  unfolding demo_manager_def
  by (intro reachable_step [OF _ step.add]) (simp add: reachable_def)

text \<open>
  C6, as the claim states it, fails: \<^verbatim>\<open>updateTask\<close> assigns the key \<^verbatim>\<open>id\<close> like any
  other. After \<^verbatim>\<open>completeTask(1)\<close> and \<^verbatim>\<open>updateTask(2, {'id': 1})\<close> the id 1 stands in
  both collections, and \<^verbatim>\<open>completeTask(1)\<close>, which returned absent before the update,
  returns a task a second time.
\<close>

theorem completeTask_id_in_both_counterexample:
  "map (\<lambda>t. map_of t ''id'') (tasks demo_clash) = [Some (VInt 1), Some (VInt 3)]
   \<and> map (\<lambda>t. map_of t ''id'') (completedTasks demo_clash) = [Some (VInt 1)]
   \<and> fst (completeTask demo_clock (VInt 1) (snd (completeTask demo_clock (VInt 1) demo_manager))) = Inr None
   \<and> fst (completeTask demo_clock (VInt 1) demo_clash) =
       Inr (Some [(''id'', VInt 1), (''title'', VStr ''Complete project''), (''priority'', VStr ''high''),
                  (''dueDate'', VTime 1705276800), (''completed'', VBool True),
                  (''createdAt'', VTime 1800000001), (''completedAt'', VTime 1800000004)])"
  by (simp add: demo_clash_def demo_manager_eval completeTask_def updateTask_def apply_updates_def
        dict_get_def getitem_def setitem_def notifyObservers_def demo_clock_def Let_def)

text \<open>
  C6, amended. In every state reachable from a new manager by the public operations,
  with \<^verbatim>\<open>updateTask\<close> restricted to patches without the key \<^verbatim>\<open>id\<close>:
  for every id that names an open task, \<^verbatim>\<open>completeTask(id)\<close> returns that task with
  \<^verbatim>\<open>completed\<close> set to true and \<^verbatim>\<open>completedAt\<close> stamped with the clock, all other
  fields as they were, removes it from the open collection and appends it to the
  completed one; for every id that names no open task it returns absent and changes
  nothing; once it has returned a task for an id, it returns absent for that id in
  every state reached afterwards, where the task is still in the completed collection;
  and the ids of the tasks of the two collections are integers and pairwise distinct,
  so that no id is in both.
\<close>

theorem completeTask_moves_once:
  assumes "reachable fromisoformat clock s"
  shows "(\<forall>t \<in> set (tasks s). names taskId t \<longrightarrow>
            (\<exists>t'. fst (completeTask clock taskId s) = Inr (Some t')
               \<and> map_of t' = (map_of t)(''completed'' \<mapsto> VBool True, ''completedAt'' \<mapsto> VTime (clock (reads s)))
               \<and> tasks (snd (completeTask clock taskId s)) = remove1 t (tasks s)
               \<and> completedTasks (snd (completeTask clock taskId s)) = completedTasks s @ [t']))
       \<and> ((\<forall>t \<in> set (tasks s). \<not> names taskId t) \<longrightarrow> completeTask clock taskId s = (Inr None, s))
       \<and> (\<forall>t' s'. fst (completeTask clock taskId s) = Inr (Some t') \<longrightarrow>
             (step fromisoformat clock)\<^sup>*\<^sup>* (snd (completeTask clock taskId s)) s' \<longrightarrow>
             completeTask clock taskId s' = (Inr None, s') \<and> t' \<in> set (completedTasks s'))
       \<and> distinct (map (\<lambda>t. map_of t ''id'') (tasks s @ completedTasks s))
       \<and> (\<forall>t \<in> set (tasks s @ completedTasks s). \<exists>i. map_of t ''id'' = Some (VInt i))"
proof -
  have wf: "ids_wf s" using assms by (rule reachable_ids_wf)
  have moved: "\<exists>t'. fst (completeTask clock taskId s) = Inr (Some t')
               \<and> map_of t' = (map_of t)(''completed'' \<mapsto> VBool True, ''completedAt'' \<mapsto> VTime (clock (reads s)))
               \<and> tasks (snd (completeTask clock taskId s)) = remove1 t (tasks s)
               \<and> completedTasks (snd (completeTask clock taskId s)) = completedTasks s @ [t']"
    if t: "t \<in> set (tasks s)" and n: "names taskId t" for t
  proof -
    obtain i where i: "index_of_id (tasks s) taskId = Inr (Some i)" "i < length (tasks s)" "tasks s ! i = t"
      using ids_wf_find [OF wf t n] by blast
    have "distinct (tasks s)"
      using wf by (simp add: ids_wf_def distinct_map)
    then have "remove1 t (tasks s) = take i (tasks s) @ drop (Suc i) (tasks s)"
      using i(2,3) remove1_nth_distinct by blast
    then show ?thesis using i
      by (simp add: completeTask_def Let_def map_of_setitem_fun)
  qed
  have absent: "completeTask clock taskId s = (Inr None, s)" if "\<forall>t \<in> set (tasks s). \<not> names taskId t"
  proof -
    have "id_in (idCounter s) u" if "u \<in> set (tasks s)" for u
      using wf that by (simp add: ids_wf_def)
    then have "\<forall>t \<in> set (tasks s). map_of t ''id'' \<noteq> None \<and> \<not> names taskId t"
      using that id_in_has_id by blast
    then have "index_of_id (tasks s) taskId = Inr None" by (rule index_of_id_absent)
    then show ?thesis by (simp add: completeTask_def)
  qed
  have after: "completeTask clock taskId s' = (Inr None, s') \<and> t' \<in> set (completedTasks s')"
    if r: "fst (completeTask clock taskId s) = Inr (Some t')"
      and st: "(step fromisoformat clock)\<^sup>*\<^sup>* (snd (completeTask clock taskId s)) s'" for t' s'
  proof -
    let ?s1 = "snd (completeTask clock taskId s)"
    from r obtain i where i: "index_of_id (tasks s) taskId = Inr (Some i)"
      by (auto simp: completeTask_def Let_def split: sum.splits option.splits)
    from index_of_id_Some [OF i] have ni: "names taskId (tasks s ! i)" by simp
    have t': "t' = setitem ''completedAt'' (VTime (clock (reads s))) (setitem ''completed'' (VBool True) (tasks s ! i))"
      using r i by (simp add: completeTask_def Let_def)
    have "map_of t' ''id'' = map_of (tasks s ! i) ''id''"
      unfolding t' by (simp add: map_of_setitem)
    with ni have nt: "names taskId t'" by (simp add: names_def)
    have "t' \<in> set (completedTasks ?s1)"
      using i t' by (simp add: completeTask_def Let_def)
    with completed_steps [OF st] have in': "t' \<in> set (completedTasks s')" by blast
    have "reachable fromisoformat clock ?s1"
      using assms step.complete by (rule reachable_step)
    then have "reachable fromisoformat clock s'" using st by (rule reachable_steps)
    then have "ids_wf s'" by (rule reachable_ids_wf)
    then have "index_of_id (tasks s') taskId = Inr None"
      using in' nt by (rule ids_wf_completed_not_open)
    then show ?thesis using in' by (simp add: completeTask_def)
  qed
  have d: "distinct (map (\<lambda>t. map_of t ''id'') (tasks s @ completedTasks s))"
    using wf by (simp add: ids_wf_def)
  have v: "\<forall>t \<in> set (tasks s @ completedTasks s). \<exists>i. map_of t ''id'' = Some (VInt i)"
    using wf id_in_VInt unfolding ids_wf_def by blast
  show ?thesis using moved absent after d v by blast
qed

lemma completed_demo_eval:
  "completeTask demo_clock (VInt 2) demo_manager =
     (Inr (Some [(''id'', VInt 2), (''title'', VStr ''Complete project''), (''priority'', VStr ''high''),
                 (''dueDate'', VTime 1705276800), (''completed'', VBool True),
                 (''createdAt'', VTime 1800000001), (''completedAt'', VTime 1800000003)]),
      demo_manager\<lparr>reads := 4,
        completedTasks := [[(''id'', VInt 2), (''title'', VStr ''Complete project''), (''priority'', VStr ''high''),
                 (''dueDate'', VTime 1705276800), (''completed'', VBool True),
                 (''createdAt'', VTime 1800000001), (''completedAt'', VTime 1800000003)]],
        tasks := [[(''id'', VInt 1), (''title'', VStr ''Review code''), (''priority'', VStr ''medium''),
          (''dueDate'', VTime 1705708800), (''completed'', VBool False), (''createdAt'', VTime 1800000000)],
         [(''id'', VInt 3), (''title'', VStr ''Plan''), (''priority'', VStr ''medium''),
          (''dueDate'', VNone), (''completed'', VBool False), (''createdAt'', VTime 1800000002)]]\<rparr>)"
  by (simp add: demo_manager_eval completeTask_def getitem_def setitem_def notifyObservers_def
        demo_clock_def Let_def)

theorem completeTask_moves_once_witness:
  "reachable demo_fromisoformat demo_clock demo_manager
   \<and> fst (completeTask demo_clock (VInt 2) demo_manager) =
       Inr (Some [(''id'', VInt 2), (''title'', VStr ''Complete project''), (''priority'', VStr ''high''),
                  (''dueDate'', VTime 1705276800), (''completed'', VBool True),
                  (''createdAt'', VTime 1800000001), (''completedAt'', VTime 1800000003)])
   \<and> map (\<lambda>t. map_of t ''id'') (tasks (snd (completeTask demo_clock (VInt 2) demo_manager))) =
       [Some (VInt 1), Some (VInt 3)]
   \<and> map (\<lambda>t. map_of t ''id'') (completedTasks (snd (completeTask demo_clock (VInt 2) demo_manager))) =
       [Some (VInt 2)]
   \<and> fst (completeTask demo_clock (VInt 2) (snd (completeTask demo_clock (VInt 2) demo_manager))) = Inr None"
proof -
  let ?s1 = "snd (completeTask demo_clock (VInt 2) demo_manager)"
  have e: "fst (completeTask demo_clock (VInt 2) demo_manager) =
       Inr (Some [(''id'', VInt 2), (''title'', VStr ''Complete project''), (''priority'', VStr ''high''),
                  (''dueDate'', VTime 1705276800), (''completed'', VBool True),
                  (''createdAt'', VTime 1800000001), (''completedAt'', VTime 1800000003)])"
    by (simp add: completed_demo_eval)
  have "(step demo_fromisoformat demo_clock)\<^sup>*\<^sup>* ?s1 ?s1" by simp
  with e completeTask_moves_once [OF reachable_demo_manager, of "VInt 2"]
  have "completeTask demo_clock (VInt 2) ?s1 = (Inr None, ?s1)" by blast
  then show ?thesis using e reachable_demo_manager
    by (simp add: completed_demo_eval)
qed

end
